theory Spec2Isabelle
  imports Complex_Main "HOL-Library.AList"
begin

section \<open>Python values used by the machine\<close>

text \<open>
  The two source files, \<^verbatim>\<open>src/prior/prior_distributed_machine.py\<close> and
  \<^verbatim>\<open>preliminary_work/driver.py\<close>, each define one class \<^verbatim>\<open>Machine\<close>.
  Their methods \<^verbatim>\<open>receive_messages\<close>, \<^verbatim>\<open>send_message\<close>, \<^verbatim>\<open>log_event\<close>,
  \<^verbatim>\<open>run\<close> and \<^verbatim>\<open>shutdown\<close> are the same text; \<^verbatim>\<open>connect_to_peers\<close> differs
  (five attempts in the first file, one attempt in the second).

  Python integers are unbounded: \<open>int\<close>. Byte strings and text are \<open>string\<close>; the
  model reads text of the 7-bit range, where UTF-8 decoding is the identity.
\<close>

datatype py_error = ValueError | IndexError | UnicodeDecodeError

subsection \<open>\<^verbatim>\<open>str(n)\<close>, as the f-string \<^verbatim>\<open>f"{n}"\<close> renders an integer\<close>

definition digit_char :: "nat \<Rightarrow> char" where
  "digit_char d = char_of (of_char (CHR ''0'') + d)"

function str_nat :: "nat \<Rightarrow> string" where
  "str_nat n = (if n < 10 then [digit_char n] else str_nat (n div 10) @ [digit_char (n mod 10)])"
  by pat_completeness auto
termination
  by (relation "measure (\<lambda>n. n)") auto

declare str_nat.simps [simp del]

definition str_int :: "int \<Rightarrow> string" where
  "str_int n = (if n < 0 then CHR ''-'' # str_nat (nat (- n)) else str_nat (nat n))"

subsection \<open>\<^verbatim>\<open>str.strip()\<close> and \<^verbatim>\<open>str.split(":")\<close>\<close>

text \<open>
  \<^verbatim>\<open>strip\<close> removes the characters for which \<^verbatim>\<open>str.isspace\<close> holds from both ends:
  in the 7-bit range these are 0x09 to 0x0D, 0x1C to 0x1F and the blank.
\<close>

definition py_isspace :: "char \<Rightarrow> bool" where
  "py_isspace c = (let k = (of_char c :: nat) in (9 \<le> k \<and> k \<le> 13) \<or> (28 \<le> k \<and> k \<le> 31) \<or> k = 32)"

definition strip :: "string \<Rightarrow> string" where
  "strip s = rev (dropWhile py_isspace (rev (dropWhile py_isspace s)))"

text \<open>
  \<^verbatim>\<open>s.split(sep)\<close> with a one-character separator cuts at every occurrence and
  always returns at least one part.
\<close>

fun py_split :: "char \<Rightarrow> string \<Rightarrow> string list" where
  "py_split sep [] = [[]]"
| "py_split sep (c # cs) =
     (if c = sep then [] # py_split sep cs
      else (case py_split sep cs of [] \<Rightarrow> [[c]] | p # ps \<Rightarrow> (c # p) # ps))"

subsection \<open>\<^verbatim>\<open>int(text)\<close>\<close>

text \<open>
  \<^verbatim>\<open>int\<close> on a string skips blanks (0x09 to 0x0D and 0x20) on both sides, reads an
  optional sign and then decimal digits, between which single underscores may stand.
  Anything else raises \<^verbatim>\<open>ValueError\<close>. The interpreter's configurable limit on the
  number of digits is not part of the model.
\<close>

definition c_isspace :: "char \<Rightarrow> bool" where
  "c_isspace c = (let k = (of_char c :: nat) in (9 \<le> k \<and> k \<le> 13) \<or> k = 32)"

definition is_digit :: "char \<Rightarrow> bool" where
  "is_digit c = (let k = (of_char c :: nat) in 48 \<le> k \<and> k \<le> 57)"

definition digit_val :: "char \<Rightarrow> nat" where
  "digit_val c = of_char c - 48"

definition digits_value :: "string \<Rightarrow> nat" where
  "digits_value ds = foldl (\<lambda>acc c. 10 * acc + digit_val c) 0 ds"

fun double_underscore :: "string \<Rightarrow> bool" where
  "double_underscore (a # b # cs) = ((a = CHR ''_'' \<and> b = CHR ''_'') \<or> double_underscore (b # cs))"
| "double_underscore _ = False"

definition int_body :: "char \<Rightarrow> bool" where
  "int_body c = (is_digit c \<or> c = CHR ''_'')"

definition py_int :: "string \<Rightarrow> py_error + int" where
  "py_int s =
     (let s1 = dropWhile c_isspace s;
          neg = (case s1 of [] \<Rightarrow> False | c # _ \<Rightarrow> c = CHR ''-'');
          s2 = (case s1 of [] \<Rightarrow> [] | c # r \<Rightarrow> if c = CHR ''+'' \<or> c = CHR ''-'' then r else s1);
          body = takeWhile int_body s2;
          rest = dropWhile c_isspace (dropWhile int_body s2)
      in if body = [] \<or> hd body = CHR ''_'' \<or> last body = CHR ''_'' \<or> double_underscore body
            \<or> rest \<noteq> []
         then Inl ValueError
         else (let v = int (digits_value (filter is_digit body)) in Inr (if neg then - v else v)))"

subsection \<open>\<^verbatim>\<open>bytes.decode("utf-8")\<close>\<close>

text \<open>
  Bytes below 0x80 decode to themselves. A chunk holding a byte from 0x80 on is
  taken as undecodable: multi-byte sequences are outside the model, and no statement
  below is about them.
\<close>

definition decode_utf8 :: "string \<Rightarrow> py_error + string" where
  "decode_utf8 bs = (if list_all (\<lambda>c. (of_char c :: nat) < 128) bs then Inr bs else Inl UnicodeDecodeError)"

section \<open>The machine\<close>

type_synonym sock = nat
type_synonym peer = "string \<times> int"

text \<open>
  A line of the log file, without its wall-clock prefix:
  \<^verbatim>\<open>f"{now:.4f}, {event_type}, L={self.logical_clock}"\<close>, then \<^verbatim>\<open>, queue=\<close> and the
  note when present.
\<close>

record log_line =
  event_type :: string
  L :: int
  queue_len :: "nat option"
  note_text :: "string option"

text \<open>What the methods print to \<^verbatim>\<open>sys.stderr\<close> (the exception text left out).\<close>

datatype diag =
    ConnectAttemptFailed peer nat nat
  | ConnectFailed peer
  | ErrorReceiving
  | ErrorSending

text \<open>
  The fields of \<^verbatim>\<open>Machine\<close>, and after them what its methods do to the world:
  the records written to each socket, the lines on stderr, the \<^verbatim>\<open>close()\<close> calls on
  sockets, and the seconds slept between connection attempts. Sockets are numbered;
  \<open>fresh\<close> is the next unused number.
\<close>

record machine =
  machine_id :: int
  listen_host :: string
  listen_port :: int
  peer_info :: "peer list"
  logical_clock :: int
  msg_queue :: "int list"
  ticks_per_second :: int
  log_file :: "log_line list"
  log_open :: bool
  server_socket :: sock
  peer_sockets :: "(peer \<times> sock) list"
  sent :: "(sock \<times> string) list"
  stderr :: "diag list"
  closed_socks :: "sock list"
  slept :: nat
  fresh :: sock

subsection \<open>\<^verbatim>\<open>log_event\<close>\<close>

text \<open>
  Writing to the log after \<^verbatim>\<open>log_file.close()\<close> raises \<^verbatim>\<open>ValueError\<close>. A note that
  is \<^verbatim>\<open>None\<close> or empty is left out (\<^verbatim>\<open>if note:\<close>).
\<close>

definition log_event :: "string \<Rightarrow> nat option \<Rightarrow> string option \<Rightarrow> machine \<Rightarrow> py_error + machine" where
  "log_event ev qlen nt s =
     (if log_open s
      then Inr (s\<lparr>log_file := log_file s @
                  [\<lparr>event_type = ev, L = logical_clock s, queue_len = qlen,
                    note_text = (case nt of None \<Rightarrow> None | Some t \<Rightarrow> if t = [] then None else Some t)\<rparr>]\<rparr>)
      else Inl ValueError)"

subsection \<open>\<^verbatim>\<open>send_message\<close>\<close>

definition encode :: "int \<Rightarrow> int \<Rightarrow> string" where
  "encode clock mid = str_int clock @ CHR '':'' # str_int mid"

text \<open>
  \<open>fails k\<close> says that \<^verbatim>\<open>sendall\<close> on socket \<open>k\<close> raises. The \<^verbatim>\<open>except Exception\<close>
  clause prints and returns.
\<close>

definition send_message :: "(sock \<Rightarrow> bool) \<Rightarrow> sock \<Rightarrow> machine \<Rightarrow> machine" where
  "send_message fails k s =
     (let msg_str = encode (logical_clock s) (machine_id s)
      in if fails k then s\<lparr>stderr := stderr s @ [ErrorSending]\<rparr>
         else s\<lparr>sent := sent s @ [(k, msg_str)]\<rparr>)"

text \<open>The loop \<^verbatim>\<open>for sock in self.peer_sockets.values(): self.send_message(sock)\<close>.\<close>

fun send_all :: "(sock \<Rightarrow> bool) \<Rightarrow> sock list \<Rightarrow> machine \<Rightarrow> machine" where
  "send_all fails [] s = s"
| "send_all fails (k # ks) s = send_all fails ks (send_message fails k s)"

subsection \<open>One iteration of the loop of \<^verbatim>\<open>run\<close>\<close>

text \<open>
  What a tick takes from outside: the value of \<^verbatim>\<open>random.randint(1, 10)\<close>, the index
  that \<^verbatim>\<open>random.choice\<close> picks, the sockets on which a send raises, and the values
  that receive workers put on the queue between \<^verbatim>\<open>msg_queue.get()\<close> and
  \<^verbatim>\<open>msg_queue.qsize()\<close> (the queue is shared with their threads).
\<close>

record tick_input =
  draw :: int
  pick :: nat
  fails :: "sock \<Rightarrow> bool"
  late :: "int list"

text \<open>
  \<^verbatim>\<open>list(self.peer_sockets.values())\<close>: the sockets in the order in which their keys
  were first stored.
\<close>

definition dict_values :: "(peer \<times> sock) list \<Rightarrow> sock list" where
  "dict_values d = map snd d"

definition tick :: "tick_input \<Rightarrow> machine \<Rightarrow> py_error + machine" where
  "tick i s =
     (case msg_queue s of
        their_clock # q \<Rightarrow>
          (let s1 = s\<lparr>msg_queue := q\<rparr>;
               s2 = s1\<lparr>logical_clock := max (logical_clock s1) their_clock + 1\<rparr>;
               s3 = s2\<lparr>msg_queue := msg_queue s2 @ late i\<rparr>
           in log_event ''RECEIVE'' (Some (length (msg_queue s3))) None s3)
      | [] \<Rightarrow>
          (let r = draw i; all_socks = dict_values (peer_sockets s) in
           if r = 1 then
             (let s1 = s\<lparr>logical_clock := logical_clock s + 1\<rparr>;
                  s2 = (if all_socks \<noteq> []
                        then send_message (fails i) (all_socks ! (pick i mod length all_socks)) s1
                        else s1)
              in log_event ''SEND(1)'' None None s2)
           else if r = 2 then
             (let s1 = s\<lparr>logical_clock := logical_clock s + 1\<rparr>;
                  s2 = (if 2 \<le> length all_socks
                        then send_message (fails i) (all_socks ! (1 mod length all_socks)) s1
                        else if all_socks \<noteq> [] then send_message (fails i) (all_socks ! 0) s1
                        else s1)
              in log_event ''SEND(2)'' None None s2)
           else if r = 3 then
             (let s1 = s\<lparr>logical_clock := logical_clock s + 1\<rparr>;
                  s2 = send_all (fails i) all_socks s1
              in log_event ''SEND(3)'' None None s2)
           else
             (let s1 = s\<lparr>logical_clock := logical_clock s + 1\<rparr>
              in log_event ''INTERNAL'' None None s1)))"

subsection \<open>\<^verbatim>\<open>receive_messages\<close>\<close>

text \<open>
  What \<^verbatim>\<open>sock.recv(1024)\<close> gives, call after call: a chunk of bytes (empty when
  the peer has closed the connection) or an exception.
\<close>

datatype recv_result = Recv string | RecvRaises

text \<open>
  The three statements between \<^verbatim>\<open>recv\<close> and \<^verbatim>\<open>msg_queue.put\<close>: decode, strip, split
  on the colon, \<^verbatim>\<open>int(parts[0])\<close>.
\<close>

definition decode_record :: "string \<Rightarrow> py_error + int" where
  "decode_record data =
     (case decode_utf8 data of
        Inl e \<Rightarrow> Inl e
      | Inr msg_str \<Rightarrow>
          (case py_split (CHR '':'') (strip msg_str) of
             [] \<Rightarrow> Inl IndexError
           | p # _ \<Rightarrow> py_int p))"

text \<open>
  The worker either returns (after \<^verbatim>\<open>sock.close()\<close>) or, when the reads it was given
  are used up, waits in \<^verbatim>\<open>recv\<close>.
\<close>

datatype worker = Returned | Waiting

fun receive_messages :: "sock \<Rightarrow> recv_result list \<Rightarrow> machine \<Rightarrow> worker \<times> machine" where
  "receive_messages k [] s = (Waiting, s)"
| "receive_messages k (RecvRaises # rs) s =
     (Returned, s\<lparr>stderr := stderr s @ [ErrorReceiving], closed_socks := closed_socks s @ [k]\<rparr>)"
| "receive_messages k (Recv data # rs) s =
     (if data = [] then (Returned, s\<lparr>closed_socks := closed_socks s @ [k]\<rparr>)
      else (case decode_record data of
              Inl e \<Rightarrow> (Returned, s\<lparr>stderr := stderr s @ [ErrorReceiving],
                                     closed_socks := closed_socks s @ [k]\<rparr>)
            | Inr their_clock \<Rightarrow>
                receive_messages k rs (s\<lparr>msg_queue := msg_queue s @ [their_clock]\<rparr>)))"

subsection \<open>\<^verbatim>\<open>connect_to_peers\<close>\<close>

text \<open>
  \<open>reach p a\<close> says that attempt number \<open>a\<close> to connect to peer \<open>p\<close> succeeds. Every
  attempt makes a new socket. Assigning to \<^verbatim>\<open>self.peer_sockets[(phost, pport)]\<close>
  keeps the place of a key that is already there and puts a new key last.

  In \<^verbatim>\<open>prior_distributed_machine.py\<close> the inner loop runs over
  \<^verbatim>\<open>range(1, max_retries + 1)\<close> with \<^verbatim>\<open>max_retries = 5\<close>.
\<close>

fun connect_attempts :: "(peer \<Rightarrow> nat \<Rightarrow> bool) \<Rightarrow> nat \<Rightarrow> peer \<Rightarrow> nat list \<Rightarrow> machine \<Rightarrow> machine" where
  "connect_attempts reach max_retries p [] s = s"
| "connect_attempts reach max_retries p (attempt # rest) s =
     (let k = fresh s; s1 = s\<lparr>fresh := k + 1\<rparr> in
      if reach p attempt
      then s1\<lparr>peer_sockets := AList.update p k (peer_sockets s1)\<rparr>
      else (let s2 = s1\<lparr>stderr := stderr s1 @ [ConnectAttemptFailed p attempt max_retries]\<rparr>;
                s3 = (if attempt < max_retries then s2\<lparr>slept := slept s2 + 1\<rparr> else s2)
            in connect_attempts reach max_retries p rest s3))"

fun connect_to_peers :: "(peer \<Rightarrow> nat \<Rightarrow> bool) \<Rightarrow> peer list \<Rightarrow> machine \<Rightarrow> machine" where
  "connect_to_peers reach [] s = s"
| "connect_to_peers reach ((phost, pport) # ps) s =
     (if phost = listen_host s \<and> pport = listen_port s then connect_to_peers reach ps s
      else (let max_retries = 5
            in connect_to_peers reach ps
                 (connect_attempts reach max_retries (phost, pport) [1 ..< max_retries + 1] s)))"

text \<open>In \<^verbatim>\<open>preliminary_work/driver.py\<close> each peer gets one attempt.\<close>

fun driver_connect_to_peers :: "(peer \<Rightarrow> nat \<Rightarrow> bool) \<Rightarrow> peer list \<Rightarrow> machine \<Rightarrow> machine" where
  "driver_connect_to_peers reach [] s = s"
| "driver_connect_to_peers reach ((phost, pport) # ps) s =
     (if phost = listen_host s \<and> pport = listen_port s then driver_connect_to_peers reach ps s
      else (let k = fresh s; s1 = s\<lparr>fresh := k + 1\<rparr> in
            if reach (phost, pport) 1
            then driver_connect_to_peers reach ps
                   (s1\<lparr>peer_sockets := AList.update (phost, pport) k (peer_sockets s1)\<rparr>)
            else driver_connect_to_peers reach ps
                   (s1\<lparr>stderr := stderr s1 @ [ConnectFailed (phost, pport)]\<rparr>)))"

subsection \<open>\<^verbatim>\<open>__init__\<close>\<close>

text \<open>
  The peer list \<^verbatim>\<open>"host1:port1,host2:port2"\<close> is cut at the commas; each entry is
  stripped and cut at the colons; \<^verbatim>\<open>host_port[1]\<close> raises \<^verbatim>\<open>IndexError\<close> when there
  is no colon.
\<close>

fun parse_peers :: "string list \<Rightarrow> py_error + peer list" where
  "parse_peers [] = Inr []"
| "parse_peers (p # ps) =
     (case py_split (CHR '':'') (strip p) of
        phost # x # _ \<Rightarrow>
          (case py_int x of
             Inl e \<Rightarrow> Inl e
           | Inr pport \<Rightarrow>
               (case parse_peers ps of Inl e \<Rightarrow> Inl e | Inr r \<Rightarrow> Inr ((phost, pport) # r)))
      | _ \<Rightarrow> Inl IndexError)"

text \<open>
  \<open>tps\<close> is the value of \<^verbatim>\<open>random.randint(1, 12)\<close> (\<^verbatim>\<open>randint(1, 6)\<close> in the driver).
  The server socket is number 0. Opening the log file, binding the server socket and
  starting the accept thread are taken to succeed.
\<close>

definition new_machine :: "int \<Rightarrow> string \<Rightarrow> int \<Rightarrow> peer list \<Rightarrow> int \<Rightarrow> machine" where
  "new_machine mid host port peers tps =
     \<lparr>machine_id = mid, listen_host = host, listen_port = port, peer_info = peers,
      logical_clock = 0, msg_queue = [], ticks_per_second = tps,
      log_file = [], log_open = True, server_socket = 0, peer_sockets = [],
      sent = [], stderr = [], closed_socks = [], slept = 0, fresh = 1\<rparr>"

definition init :: "int \<Rightarrow> string \<Rightarrow> int \<Rightarrow> string \<Rightarrow> int \<Rightarrow> (peer \<Rightarrow> nat \<Rightarrow> bool) \<Rightarrow> py_error + machine" where
  "init mid host port peers_str tps reach =
     (case parse_peers (py_split (CHR '','') peers_str) of
        Inl e \<Rightarrow> Inl e
      | Inr peers \<Rightarrow>
          log_event ''INIT'' None (Some (''ticks='' @ str_int tps))
            (connect_to_peers reach peers (new_machine mid host port peers tps)))"

definition driver_init :: "int \<Rightarrow> string \<Rightarrow> int \<Rightarrow> string \<Rightarrow> int \<Rightarrow> (peer \<Rightarrow> nat \<Rightarrow> bool) \<Rightarrow> py_error + machine" where
  "driver_init mid host port peers_str tps reach =
     (case parse_peers (py_split (CHR '','') peers_str) of
        Inl e \<Rightarrow> Inl e
      | Inr peers \<Rightarrow>
          log_event ''INIT'' None (Some (''ticks='' @ str_int tps))
            (driver_connect_to_peers reach peers (new_machine mid host port peers tps)))"

subsection \<open>\<^verbatim>\<open>shutdown\<close> and \<^verbatim>\<open>run\<close>\<close>

definition shutdown :: "machine \<Rightarrow> py_error + machine" where
  "shutdown s =
     (case log_event ''SHUTDOWN'' None None s of
        Inl e \<Rightarrow> Inl e
      | Inr s1 \<Rightarrow>
          Inr (s1\<lparr>log_open := False,
                  closed_socks := closed_socks s1 @ server_socket s1 # dict_values (peer_sockets s1)\<rparr>))"

text \<open>
  One pass of the \<^verbatim>\<open>while\<close> loop, seen from outside: the reading of \<^verbatim>\<open>time.time()\<close>
  in the loop condition, the values the receive workers have put on the queue since
  the pass before, and the input of the tick. The sleep at the end of a pass shows
  only in the next reading.
\<close>

record iteration =
  check_time :: real
  arrivals :: "int list"
  input :: tick_input

definition enqueue :: "int list \<Rightarrow> machine \<Rightarrow> machine" where
  "enqueue vs s = s\<lparr>msg_queue := msg_queue s @ vs\<rparr>"

fun steps :: "iteration list \<Rightarrow> machine \<Rightarrow> py_error + machine" where
  "steps [] s = Inr s"
| "steps (it # its) s =
     (case tick (input it) (enqueue (arrivals it) s) of
        Inl e \<Rightarrow> Inl e
      | Inr s' \<Rightarrow> steps its s')"

text \<open>
  \<open>run\<close> is given the passes of a finite stretch of time. \<open>None\<close> says that the loop
  is still going when they are used up; an exception leaves \<open>run\<close> without the
  call of \<open>shutdown\<close>.
\<close>

fun run :: "real \<Rightarrow> real \<Rightarrow> iteration list \<Rightarrow> machine \<Rightarrow> (py_error + machine) option" where
  "run run_time start_time [] s = None"
| "run run_time start_time (it # its) s =
     (if check_time it - start_time < run_time
      then (case tick (input it) (enqueue (arrivals it) s) of
              Inl e \<Rightarrow> Some (Inl e)
            | Inr s' \<Rightarrow> run run_time start_time its s')
      else Some (shutdown s))"

section \<open>Notions used to state the properties\<close>

text \<open>
  The sockets that a tick with an empty queue writes to, and the name it logs.
  Lemma \<open>tick_local\<close> below shows that \<open>tick\<close> does exactly this.
\<close>

definition targets :: "tick_input \<Rightarrow> machine \<Rightarrow> sock list" where
  "targets i s =
     (let all_socks = dict_values (peer_sockets s) in
      if draw i = 1 then (if all_socks = [] then [] else [all_socks ! (pick i mod length all_socks)])
      else if draw i = 2 then (case all_socks of [] \<Rightarrow> [] | [k] \<Rightarrow> [k] | k0 # k1 # _ \<Rightarrow> [k1])
      else if draw i = 3 then all_socks
      else [])"

definition kind :: "int \<Rightarrow> string" where
  "kind r = (if r = 1 then ''SEND(1)'' else if r = 2 then ''SEND(2)''
             else if r = 3 then ''SEND(3)'' else ''INTERNAL'')"

text \<open>
  Chunks of 7-bit bytes; a read that ends the worker; the text before the first colon
  of a chunk; the values a worker puts on the queue and the lines it prints, as
  \<open>receive_messages\<close> is shown to do in \<open>receive_messages_effect\<close>.
\<close>

definition ascii :: "string \<Rightarrow> bool" where
  "ascii bs = list_all (\<lambda>c. (of_char c :: nat) < 128) bs"

definition stops :: "recv_result \<Rightarrow> bool" where
  "stops r = (case r of RecvRaises \<Rightarrow> True | Recv data \<Rightarrow> data = [] \<or> isl (decode_record data))"


fun accepted :: "recv_result list \<Rightarrow> int list" where
  "accepted [] = []"
| "accepted (RecvRaises # rs) = []"
| "accepted (Recv data # rs) =
     (if data = [] then []
      else (case decode_record data of Inl e \<Rightarrow> [] | Inr v \<Rightarrow> v # accepted rs))"

fun complaints :: "recv_result list \<Rightarrow> diag list" where
  "complaints [] = []"
| "complaints (RecvRaises # rs) = [ErrorReceiving]"
| "complaints (Recv data # rs) =
     (if data = [] then []
      else (case decode_record data of Inl e \<Rightarrow> [ErrorReceiving] | Inr v \<Rightarrow> complaints rs))"

text \<open>A machine with two peers connected, clock at 3, used to instantiate the theorems.\<close>

definition example_machine :: machine where
  "example_machine =
     \<lparr>machine_id = 2, listen_host = ''127.0.0.1'', listen_port = 5002,
      peer_info = [(''127.0.0.1'', 5001), (''127.0.0.1'', 5003)],
      logical_clock = 3, msg_queue = [], ticks_per_second = 3,
      log_file = [\<lparr>event_type = ''INIT'', L = 0, queue_len = None, note_text = Some ''ticks=3''\<rparr>],
      log_open = True, server_socket = 0,
      peer_sockets = [((''127.0.0.1'', 5001), 1), ((''127.0.0.1'', 5003), 2)],
      sent = [], stderr = [], closed_socks = [], slept = 0, fresh = 3\<rparr>"

definition example_input :: "int \<Rightarrow> tick_input" where
  "example_input r = \<lparr>draw = r, pick = 0, fails = (\<lambda>k. k = 1), late = []\<rparr>"

definition example_iteration :: "real \<Rightarrow> int \<Rightarrow> iteration" where
  "example_iteration t r = \<lparr>check_time = t, arrivals = [], input = example_input r\<rparr>"


text \<open>The peers that have a connection: the keys of \<^verbatim>\<open>peer_sockets\<close>.\<close>

definition keys :: "(peer \<times> sock) list \<Rightarrow> peer set" where
  "keys d = fst ` set d"

text \<open>
  A machine before it connects, listing itself and one peer; and the machine that
  \<^verbatim>\<open>__init__\<close> builds from the peer list \<^verbatim>\<open>127.0.0.1:5002\<close> when that peer is reachable.
\<close>

definition example_start :: machine where
  "example_start = new_machine 1 ''127.0.0.1'' 5001 [(''127.0.0.1'', 5001), (''127.0.0.1'', 5003)] 3"

definition example_peer :: peer where
  "example_peer = (''127.0.0.1'', 5003)"

definition example_init :: machine where
  "example_init =
     \<lparr>machine_id = 1, listen_host = ''127.0.0.1'', listen_port = 5001,
      peer_info = [(''127.0.0.1'', 5002)],
      logical_clock = 0, msg_queue = [], ticks_per_second = 3,
      log_file = [\<lparr>event_type = ''INIT'', L = 0, queue_len = None, note_text = Some ''ticks=3''\<rparr>],
      log_open = True, server_socket = 0,
      peer_sockets = [((''127.0.0.1'', 5002), 1)],
      sent = [], stderr = [], closed_socks = [], slept = 0, fresh = 2\<rparr>"

section \<open>Ticks\<close>

lemma tick_receive:
  assumes "log_open s" and "msg_queue s = v # q"
  shows "tick i s = Inr (s\<lparr>msg_queue := q @ late i,
            logical_clock := max (logical_clock s) v + 1,
            log_file := log_file s @
              [\<lparr>event_type = ''RECEIVE'', L = max (logical_clock s) v + 1,
                queue_len = Some (length (q @ late i)), note_text = None\<rparr>]\<rparr>)"
  using assms by (simp add: tick_def log_event_def)

lemma send_message_fields:
  "logical_clock (send_message f k s) = logical_clock s"
  "machine_id (send_message f k s) = machine_id s"
  "log_file (send_message f k s) = log_file s"
  "log_open (send_message f k s) = log_open s"
  "msg_queue (send_message f k s) = msg_queue s"
  "peer_sockets (send_message f k s) = peer_sockets s"
  "closed_socks (send_message f k s) = closed_socks s"
  "server_socket (send_message f k s) = server_socket s"
  by (simp_all add: send_message_def Let_def)

lemma send_message_sent:
  "sent (send_message f k s) = sent s @ (if f k then [] else [(k, encode (logical_clock s) (machine_id s))])"
  "stderr (send_message f k s) = stderr s @ (if f k then [ErrorSending] else [])"
  by (simp_all add: send_message_def Let_def)

lemma send_all_fields:
  "logical_clock (send_all f ks s) = logical_clock s"
  "machine_id (send_all f ks s) = machine_id s"
  "log_file (send_all f ks s) = log_file s"
  "log_open (send_all f ks s) = log_open s"
  "msg_queue (send_all f ks s) = msg_queue s"
  "peer_sockets (send_all f ks s) = peer_sockets s"
  "closed_socks (send_all f ks s) = closed_socks s"
  "server_socket (send_all f ks s) = server_socket s"
  by (induction ks arbitrary: s; simp add: send_message_fields)+

lemma send_all_sent:
  "sent (send_all f ks s) =
     sent s @ map (\<lambda>k. (k, encode (logical_clock s) (machine_id s))) (filter (\<lambda>k. \<not> f k) ks)"
  by (induction ks arbitrary: s) (simp_all add: send_message_sent send_message_fields)

lemma send_all_stderr:
  "stderr (send_all f ks s) = stderr s @ map (\<lambda>k. ErrorSending) (filter f ks)"
  by (induction ks arbitrary: s) (simp_all add: send_message_sent send_message_fields)

lemma tick_local_eq:
  assumes "log_open s" and "msg_queue s = []"
  shows "tick i s = log_event (kind (draw i)) None None
           (send_all (fails i) (targets i s) (s\<lparr>logical_clock := logical_clock s + 1\<rparr>))"
  using assms
  by (cases "dict_values (peer_sockets s)" rule: list.exhaust[case_names Nil Cons];
      cases "tl (dict_values (peer_sockets s))";
      simp add: tick_def targets_def kind_def Let_def)

lemma tick_local:
  assumes "log_open s" and "msg_queue s = []"
  shows "tick i s = Inr (send_all (fails i) (targets i s) (s\<lparr>logical_clock := logical_clock s + 1\<rparr>)
           \<lparr>log_file := log_file s @
              [\<lparr>event_type = kind (draw i), L = logical_clock s + 1,
                queue_len = None, note_text = None\<rparr>]\<rparr>)"
  using assms by (simp add: tick_local_eq log_event_def send_all_fields)

lemma tick_total:
  assumes "log_open s"
  shows "\<exists>s'. tick i s = Inr s' \<and> log_open s' \<and> logical_clock s < logical_clock s'
           \<and> (msg_queue s = [] \<longrightarrow> logical_clock s' = logical_clock s + 1)
           \<and> peer_sockets s' = peer_sockets s \<and> closed_socks s' = closed_socks s
           \<and> server_socket s' = server_socket s \<and> machine_id s' = machine_id s
           \<and> length (log_file s') = Suc (length (log_file s))
           \<and> butlast (log_file s') = log_file s
           \<and> event_type (last (log_file s')) \<noteq> ''SHUTDOWN''"
proof (cases "msg_queue s")
  case Nil
  show ?thesis
    unfolding tick_local[OF assms Nil] using assms Nil
    by (simp add: send_all_fields kind_def)
next
  case (Cons v q)
  show ?thesis
    unfolding tick_receive[OF assms Cons] using assms Cons by simp
qed

lemma enqueue_fields:
  "log_open (enqueue vs s) = log_open s"
  "logical_clock (enqueue vs s) = logical_clock s"
  "peer_sockets (enqueue vs s) = peer_sockets s"
  "closed_socks (enqueue vs s) = closed_socks s"
  "server_socket (enqueue vs s) = server_socket s"
  "machine_id (enqueue vs s) = machine_id s"
  "log_file (enqueue vs s) = log_file s"
  "sent (enqueue vs s) = sent s"
  "stderr (enqueue vs s) = stderr s"
  "msg_queue (enqueue vs s) = msg_queue s @ vs"
  by (simp_all add: enqueue_def)

lemma steps_append:
  "steps (xs @ ys) s = (case steps xs s of Inl e \<Rightarrow> Inl e | Inr s' \<Rightarrow> steps ys s')"
  by (induction xs arbitrary: s) (simp_all split: sum.splits)

lemma steps_total:
  assumes "log_open s"
  shows "\<exists>s'. steps its s = Inr s' \<and> log_open s'
           \<and> logical_clock s + int (length its) \<le> logical_clock s'
           \<and> peer_sockets s' = peer_sockets s \<and> closed_socks s' = closed_socks s
           \<and> server_socket s' = server_socket s \<and> machine_id s' = machine_id s
           \<and> length (log_file s') = length (log_file s) + length its
           \<and> take (length (log_file s)) (log_file s') = log_file s
           \<and> (\<forall>l \<in> set (drop (length (log_file s)) (log_file s')). event_type l \<noteq> ''SHUTDOWN'')"
  using assms
proof (induction its arbitrary: s)
  case Nil
  then show ?case by simp
next
  case (Cons it its)
  from Cons.prems have "log_open (enqueue (arrivals it) s)" by (simp add: enqueue_fields)
  from tick_total[OF this, of "input it"] obtain s1 where
    t: "tick (input it) (enqueue (arrivals it) s) = Inr s1" and o: "log_open s1"
    and c: "logical_clock s < logical_clock s1"
    and f: "peer_sockets s1 = peer_sockets s" "closed_socks s1 = closed_socks s"
           "server_socket s1 = server_socket s" "machine_id s1 = machine_id s"
    and l: "length (log_file s1) = Suc (length (log_file s))"
           "butlast (log_file s1) = log_file s"
           "event_type (last (log_file s1)) \<noteq> ''SHUTDOWN''"
    by (auto simp: enqueue_fields)
  from Cons.IH[OF o] obtain s2 where
    r: "steps its s1 = Inr s2" and o2: "log_open s2"
    and c2: "logical_clock s1 + int (length its) \<le> logical_clock s2"
    and f2: "peer_sockets s2 = peer_sockets s1" "closed_socks s2 = closed_socks s1"
            "server_socket s2 = server_socket s1" "machine_id s2 = machine_id s1"
    and l2: "length (log_file s2) = length (log_file s1) + length its"
            "take (length (log_file s1)) (log_file s2) = log_file s1"
            "\<forall>l \<in> set (drop (length (log_file s1)) (log_file s2)). event_type l \<noteq> ''SHUTDOWN''"
    by blast
  from l have s1log: "log_file s1 = log_file s @ [last (log_file s1)]"
    by (metis append_butlast_last_id length_0_conv nat.distinct(1))
  have tk: "take (length (log_file s)) (log_file s2) = log_file s"
  proof -
    have "take (length (log_file s)) (log_file s2)
          = take (length (log_file s)) (take (length (log_file s1)) (log_file s2))"
      using l(1) by (simp add: min_def)
    also have "\<dots> = take (length (log_file s)) (log_file s1)" using l2(2) by simp
    also have "\<dots> = log_file s" using s1log by (metis append_eq_conv_conj)
    finally show ?thesis .
  qed
  have dr: "drop (length (log_file s)) (log_file s2)
            = last (log_file s1) # drop (length (log_file s1)) (log_file s2)"
  proof -
    have "log_file s2 = log_file s1 @ drop (length (log_file s1)) (log_file s2)"
      using l2(2) by (metis append_take_drop_id)
    then have "log_file s2 = log_file s @ last (log_file s1) # drop (length (log_file s1)) (log_file s2)"
      using s1log by (metis append.assoc append_Cons append_Nil)
    then show ?thesis by (metis append_eq_conv_conj)
  qed
  show ?case
    using t r o2 c c2 f f2 l l2 tk dr by simp
qed

section \<open>The wire format\<close>

lemma of_char_digit_char: "d < 10 \<Longrightarrow> (of_char (digit_char d) :: nat) = 48 + d"
  by (simp add: digit_char_def)

lemma digit_char_props:
  assumes "d < 10"
  shows "is_digit (digit_char d)" and "digit_val (digit_char d) = d"
    and "digit_char d \<noteq> CHR ''_''" and "digit_char d \<noteq> CHR '':''"
    and "digit_char d \<noteq> CHR ''-''" and "digit_char d \<noteq> CHR ''+''"
    and "\<not> c_isspace (digit_char d)" and "\<not> py_isspace (digit_char d)"
    and "(of_char (digit_char d) :: nat) < 128"
proof -
  note k = of_char_digit_char[OF assms]
  show "is_digit (digit_char d)" using assms by (simp add: is_digit_def k)
  show "digit_val (digit_char d) = d" by (simp add: digit_val_def k)
  have ne: "\<And>c. (of_char c :: nat) \<noteq> 48 + d \<Longrightarrow> digit_char d \<noteq> c" using k by auto
  show "digit_char d \<noteq> CHR ''_''" using assms by (intro ne) simp
  show "digit_char d \<noteq> CHR '':''" using assms by (intro ne) simp
  show "digit_char d \<noteq> CHR ''-''" using assms by (intro ne) simp
  show "digit_char d \<noteq> CHR ''+''" using assms by (intro ne) simp
  show "\<not> c_isspace (digit_char d)" by (simp add: c_isspace_def k)
  show "\<not> py_isspace (digit_char d)" by (simp add: py_isspace_def k)
  show "(of_char (digit_char d) :: nat) < 128" using assms by (simp add: k)
qed

lemma str_nat_digits: "c \<in> set (str_nat n) \<Longrightarrow> \<exists>d<10. c = digit_char d"
proof (induction n rule: str_nat.induct)
  case (1 n)
  show ?case
  proof (cases "n < 10")
    case True
    with "1.prems" show ?thesis by (auto simp: str_nat.simps[of n])
  next
    case False
    with "1.prems" have "c \<in> set (str_nat (n div 10)) \<or> c = digit_char (n mod 10)"
      by (auto simp: str_nat.simps[of n])
    then show ?thesis
    proof
      assume "c \<in> set (str_nat (n div 10))"
      with "1.IH"[OF False] show ?thesis .
    next
      assume "c = digit_char (n mod 10)"
      moreover have "n mod 10 < 10" by simp
      ultimately show ?thesis by blast
    qed
  qed
qed

lemma str_nat_nonempty: "str_nat n \<noteq> []"
  by (subst str_nat.simps) simp

lemma digits_value_snoc: "digits_value (ds @ [c]) = 10 * digits_value ds + digit_val c"
  by (simp add: digits_value_def)

lemma digits_value_str_nat: "digits_value (str_nat n) = n"
proof (induction n rule: str_nat.induct)
  case (1 n)
  show ?case
  proof (cases "n < 10")
    case True
    then show ?thesis
      by (simp add: str_nat.simps[of n] digits_value_def digit_char_props)
  next
    case False
    have "digits_value (str_nat n) = 10 * digits_value (str_nat (n div 10)) + digit_val (digit_char (n mod 10))"
      using False by (simp add: str_nat.simps[of n] digits_value_snoc)
    also have "\<dots> = 10 * (n div 10) + n mod 10"
      using "1.IH"[OF False] by (simp add: digit_char_props)
    finally show ?thesis by simp
  qed
qed

lemma no_double_underscore: "CHR ''_'' \<notin> set xs \<Longrightarrow> \<not> double_underscore xs"
  by (induction xs rule: double_underscore.induct) auto

lemma is_digit_facts:
  assumes "is_digit c"
  shows "int_body c" and "c \<noteq> CHR ''_''" and "c \<noteq> CHR '':''" and "c \<noteq> CHR ''-''"
    and "c \<noteq> CHR ''+''" and "\<not> c_isspace c" and "\<not> py_isspace c"
    and "(of_char c :: nat) < 128"
  using assms by (auto simp: is_digit_def int_body_def c_isspace_def py_isspace_def Let_def)

lemma str_nat_is_digit: "c \<in> set (str_nat n) \<Longrightarrow> is_digit c"
  using str_nat_digits[of c n] digit_char_props(1) by blast

lemma py_int_digits:
  assumes "ds \<noteq> []" and "\<forall>c \<in> set ds. is_digit c"
  shows "py_int ds = Inr (int (digits_value ds))"
    and "py_int (CHR ''-'' # ds) = Inr (- int (digits_value ds))"
proof -
  obtain c cs where s: "ds = c # cs" using assms(1) by (cases ds) auto
  have a: "\<forall>x \<in> set (c # cs). is_digit x" using assms(2) unfolding s .
  have tw: "takeWhile int_body (c # cs) = c # cs"
    using a by (intro iffD2[OF takeWhile_eq_all_conv]) (auto simp: is_digit_facts)
  have dw: "dropWhile int_body (c # cs) = []"
    using a by (intro iffD2[OF dropWhile_eq_Nil_conv]) (auto simp: is_digit_facts)
  have fl: "filter is_digit (c # cs) = c # cs"
    using a by (intro iffD2[OF filter_id_conv]) auto
  have nd: "\<not> double_underscore (c # cs)"
    using a by (intro no_double_underscore) (auto dest: is_digit_facts(2))
  have lst: "last (c # cs) \<noteq> CHR ''_''"
    using a last_in_set[of "c # cs"] is_digit_facts(2) by blast
  have c: "\<not> c_isspace c" "c \<noteq> CHR ''-''" "c \<noteq> CHR ''+''" "c \<noteq> CHR ''_''"
    using a by (auto dest: is_digit_facts)
  have d1: "dropWhile c_isspace (c # cs) = c # cs" using c by simp
  have sp: "\<not> c_isspace (CHR ''-'')" by (simp add: c_isspace_def)
  have d2: "dropWhile c_isspace (CHR ''-'' # c # cs) = CHR ''-'' # c # cs" using sp by simp
  show "py_int ds = Inr (int (digits_value ds))"
    unfolding s py_int_def d1 using c nd lst
    by (simp add: Let_def tw dw fl
             del: takeWhile.simps dropWhile.simps filter.simps last.simps double_underscore.simps)
  show "py_int (CHR ''-'' # ds) = Inr (- int (digits_value ds))"
    unfolding s py_int_def d2 using c nd lst
    by (simp add: Let_def tw dw fl
             del: takeWhile.simps dropWhile.simps filter.simps last.simps double_underscore.simps)
qed

lemma py_int_str_int: "py_int (str_int n) = Inr n"
  using py_int_digits[of "str_nat (nat n)"] py_int_digits[of "str_nat (nat (- n))"]
  by (simp add: str_int_def str_nat_nonempty str_nat_is_digit digits_value_str_nat)


lemma py_split_first:
  "sep \<notin> set a \<Longrightarrow> py_split sep (a @ sep # r) = a # py_split sep r"
  by (induction a) (auto split: list.splits)


lemma strip_keeps_head:
  assumes "a \<noteq> []" and "\<not> py_isspace (hd a)"
  shows "\<exists>r'. strip (a @ CHR '':'' # r) = a @ CHR '':'' # r'"
proof -
  have c: "\<not> py_isspace (CHR '':'')" by (simp add: py_isspace_def)
  obtain x xs where a: "a = x # xs" using assms(1) by (cases a) auto
  have d: "dropWhile py_isspace (a @ CHR '':'' # r) = a @ CHR '':'' # r"
    using assms(2) a by simp
  have "\<exists>u. dropWhile py_isspace (rev r @ CHR '':'' # rev a) = u @ CHR '':'' # rev a"
  proof (cases "\<forall>x \<in> set (rev r). py_isspace x")
    case True
    then have "dropWhile py_isspace (rev r @ CHR '':'' # rev a) = [] @ CHR '':'' # rev a"
      using c by (simp add: dropWhile_append)
    then show ?thesis by blast
  next
    case False
    then have "dropWhile py_isspace (rev r @ CHR '':'' # rev a)
               = dropWhile py_isspace (rev r) @ CHR '':'' # rev a"
      by (auto simp: dropWhile_append)
    then show ?thesis by blast
  qed
  then obtain u where "dropWhile py_isspace (rev r @ CHR '':'' # rev a) = u @ CHR '':'' # rev a"
    by blast
  then have "strip (a @ CHR '':'' # r) = a @ CHR '':'' # rev u"
    unfolding strip_def d by simp
  then show ?thesis by blast
qed


lemma str_int_nonempty: "str_int c \<noteq> []"
  by (simp add: str_int_def str_nat_nonempty)

lemma str_int_chars:
  assumes "x \<in> set (str_int c)"
  shows "x \<noteq> CHR '':''" and "\<not> py_isspace x" and "(of_char x :: nat) < 128"
proof -
  have "x = CHR ''-'' \<or> is_digit x"
    using assms str_nat_is_digit by (auto simp: str_int_def split: if_splits)
  then show "x \<noteq> CHR '':''" and "\<not> py_isspace x" and "(of_char x :: nat) < 128"
  proof (atomize(full), elim disjE)
    assume "x = CHR ''-''"
    then show "x \<noteq> CHR '':'' \<and> \<not> py_isspace x \<and> (of_char x :: nat) < 128"
      by (simp add: py_isspace_def)
  next
    assume "is_digit x"
    then show "x \<noteq> CHR '':'' \<and> \<not> py_isspace x \<and> (of_char x :: nat) < 128"
      by (simp add: is_digit_facts)
  qed
qed

lemma decode_utf8_ascii: "ascii bs \<Longrightarrow> decode_utf8 bs = Inr bs"
  by (simp add: decode_utf8_def ascii_def)

lemma ascii_append: "ascii (a @ b) = (ascii a \<and> ascii b)"
  by (simp add: ascii_def)

lemma ascii_Cons: "ascii (c # cs) = ((of_char c :: nat) < 128 \<and> ascii cs)"
  by (simp add: ascii_def)

lemma ascii_str_int: "ascii (str_int c)"
  using str_int_chars(3) by (auto simp: ascii_def list_all_iff)

lemma ascii_encode: "ascii (encode c m)"
  by (simp add: encode_def ascii_append ascii_Cons ascii_str_int)

lemma decode_record_head:
  assumes "ascii r"
  shows "decode_record (str_int c @ CHR '':'' # r) = Inr c"
proof -
  have "ascii (str_int c @ CHR '':'' # r)"
    using assms ascii_str_int[of c] by (simp add: ascii_append ascii_Cons)
  then have d: "decode_utf8 (str_int c @ CHR '':'' # r) = Inr (str_int c @ CHR '':'' # r)"
    by (rule decode_utf8_ascii)
  have "\<not> py_isspace (hd (str_int c))"
    using str_int_nonempty[of c] str_int_chars(2) hd_in_set by blast
  from strip_keeps_head[OF str_int_nonempty this, of r]
  obtain r' where s: "strip (str_int c @ CHR '':'' # r) = str_int c @ CHR '':'' # r'" by blast
  have "CHR '':'' \<notin> set (str_int c)" using str_int_chars(1) by blast
  then have p: "py_split (CHR '':'') (str_int c @ CHR '':'' # r') = str_int c # py_split (CHR '':'') r'"
    by (rule py_split_first)
  show ?thesis
    unfolding decode_record_def d by (simp add: s p py_int_str_int)
qed

text \<open>
  Claim C6. A record written as \<^verbatim>\<open>f"{clock}:{machine_id}"\<close> and read back by the three
  decoding statements of \<open>receive_messages\<close> gives the clock value again, for all
  non-negative clock values and sender ids. (\<open>decode_record_head\<close> shows the same for
  every integer, whatever follows the colon.) At clock 17 and sender 2 the wire text is
  \<^verbatim>\<open>17:2\<close> and the decoded value is 17.
\<close>

theorem wire_round_trip:
  assumes "0 \<le> clock" and "0 \<le> mid"
  shows "decode_record (encode clock mid) = Inr clock"
  unfolding encode_def by (rule decode_record_head) (rule ascii_str_int)

theorem wire_round_trip_witness:
  "(0::int) \<le> 17 \<and> (0::int) \<le> 2 \<and> encode 17 2 = ''17:2''
   \<and> decode_record (encode 17 2) = Inr 17"
proof -
  have h1: "(0::int) \<le> 17" and h2: "(0::int) \<le> 2" by simp_all
  have e: "encode 17 2 = ''17:2''" by code_simp
  show ?thesis using h1 h2 e wire_round_trip[OF h1 h2] by blast
qed






section \<open>Properties of a tick\<close>

lemma steps_receive_prefix:
  assumes "log_open s" and "msg_queue s = vs @ ex" and "n \<le> length vs" and "n \<le> length its"
  shows "\<exists>s' ex'. steps (take n its) s = Inr s' \<and> log_open s'
           \<and> msg_queue s' = drop n vs @ ex' \<and> logical_clock s \<le> logical_clock s'"
  using assms
proof (induction n arbitrary: s vs ex its)
  case 0
  then show ?case by simp
next
  case (Suc n)
  from Suc.prems obtain v vs' where vs: "vs = v # vs'" by (cases vs) auto
  from Suc.prems obtain it its' where its: "its = it # its'" by (cases its) auto
  let ?s0 = "enqueue (arrivals it) s"
  have o: "log_open ?s0" and q: "msg_queue ?s0 = v # (vs' @ ex @ arrivals it)"
    using Suc.prems vs by (simp_all add: enqueue_fields)
  let ?s1 = "?s0\<lparr>msg_queue := (vs' @ ex @ arrivals it) @ late (input it),
            logical_clock := max (logical_clock ?s0) v + 1,
            log_file := log_file ?s0 @
              [\<lparr>event_type = ''RECEIVE'', L = max (logical_clock ?s0) v + 1,
                queue_len = Some (length ((vs' @ ex @ arrivals it) @ late (input it))), note_text = None\<rparr>]\<rparr>"
  have t: "tick (input it) ?s0 = Inr ?s1" by (rule tick_receive[OF o q])
  have "log_open ?s1" using o by simp
  moreover have "msg_queue ?s1 = vs' @ (ex @ arrivals it @ late (input it))" by simp
  moreover have "n \<le> length vs'" "n \<le> length its'" using Suc.prems vs its by simp_all
  ultimately obtain s' ex' where
    "steps (take n its') ?s1 = Inr s'" "log_open s'" "msg_queue s' = drop n vs' @ ex'"
    "logical_clock ?s1 \<le> logical_clock s'"
    using Suc.IH[of ?s1 vs' "ex @ arrivals it @ late (input it)" its'] by blast
  moreover have "logical_clock s \<le> logical_clock ?s1" by (simp add: enqueue_fields)
  ultimately show ?case using t vs its by (auto simp del: tick_receive)
qed

text \<open>
  Claim C1. When the queue holds the values \<open>vs\<close>, the next \<open>length vs\<close> ticks each
  take one of them, in order, and set the clock to \<open>max(clock, v) + 1\<close>. The clock
  after such a tick is above the clock before it and above the value received, so
  it never goes down; the tick raises nothing and leaves the connections, the
  records sent, stderr and the closed sockets as they were.
\<close>

theorem receive_rule:
  assumes "log_open s" and "msg_queue s = vs" and "length vs \<le> length its"
  shows "\<forall>n < length vs. \<exists>a b.
           steps (take n its) s = Inr a \<and> steps (take (Suc n) its) s = Inr b
           \<and> logical_clock b = max (logical_clock a) (vs ! n) + 1
           \<and> logical_clock s \<le> logical_clock a
           \<and> logical_clock a < logical_clock b \<and> vs ! n < logical_clock b
           \<and> peer_sockets b = peer_sockets a \<and> sent b = sent a \<and> stderr b = stderr a
           \<and> closed_socks b = closed_socks a \<and> log_open b"
proof (intro allI impI)
  fix n assume n: "n < length vs"
  from steps_receive_prefix[OF assms(1), of vs "[]" n its] assms n
  obtain a ex' where a: "steps (take n its) s = Inr a" "log_open a"
    "msg_queue a = drop n vs @ ex'" "logical_clock s \<le> logical_clock a"
    by auto
  let ?it = "its ! n"
  have tk: "take (Suc n) its = take n its @ [?it]"
    using n assms(3) by (simp add: take_Suc_conv_app_nth)
  let ?a0 = "enqueue (arrivals ?it) a"
  have q: "msg_queue ?a0 = vs ! n # (drop (Suc n) vs @ ex' @ arrivals ?it)"
    using a(3) n by (simp add: enqueue_fields Cons_nth_drop_Suc)
  have o: "log_open ?a0" using a(2) by (simp add: enqueue_fields)
  have b: "steps (take (Suc n) its) s = tick (input ?it) ?a0"
    unfolding tk steps_append a(1) by (simp split: sum.splits)
  show "\<exists>a b.
           steps (take n its) s = Inr a \<and> steps (take (Suc n) its) s = Inr b
           \<and> logical_clock b = max (logical_clock a) (vs ! n) + 1
           \<and> logical_clock s \<le> logical_clock a
           \<and> logical_clock a < logical_clock b \<and> vs ! n < logical_clock b
           \<and> peer_sockets b = peer_sockets a \<and> sent b = sent a \<and> stderr b = stderr a
           \<and> closed_socks b = closed_socks a \<and> log_open b"
    unfolding b tick_receive[OF o q] using a o by (simp add: enqueue_fields)
qed

theorem receive_rule_witness:
  "log_open (enqueue [5, 2] example_machine)
   \<and> msg_queue (enqueue [5, 2] example_machine) = [5, 2]
   \<and> length [5, 2 :: int] \<le> length [example_iteration 1 2, example_iteration 2 7]
   \<and> (\<exists>a b.
         steps (take 0 [example_iteration 1 2, example_iteration 2 7])
           (enqueue [5, 2] example_machine) = Inr a
       \<and> steps (take (Suc 0) [example_iteration 1 2, example_iteration 2 7])
           (enqueue [5, 2] example_machine) = Inr b
       \<and> logical_clock b = max (logical_clock a) ([5, 2] ! 0) + 1
       \<and> logical_clock a < logical_clock b \<and> [5, 2] ! 0 < logical_clock b)
   \<and> (\<exists>a b.
         steps (take 1 [example_iteration 1 2, example_iteration 2 7])
           (enqueue [5, 2] example_machine) = Inr a
       \<and> steps (take (Suc 1) [example_iteration 1 2, example_iteration 2 7])
           (enqueue [5, 2] example_machine) = Inr b
       \<and> logical_clock b = max (logical_clock a) ([5, 2] ! 1) + 1
       \<and> logical_clock a < logical_clock b \<and> [5, 2] ! 1 < logical_clock b)"
proof -
  have h1: "log_open (enqueue [5, 2] example_machine)"
    by (simp add: enqueue_def example_machine_def)
  have h2: "msg_queue (enqueue [5, 2] example_machine) = [5, 2]"
    by (simp add: enqueue_def example_machine_def)
  have h3: "length [5, 2 :: int] \<le> length [example_iteration 1 2, example_iteration 2 7]"
    by simp
  have n0: "0 < length [5, 2 :: int]" and n1: "1 < length [5, 2 :: int]" by simp_all
  note r = receive_rule[OF h1 h2 h3, rule_format]
  show ?thesis using h1 h2 h3 r[OF n0] r[OF n1] by blast
qed

text \<open>
  Claim C3. A tick that finds the queue non-empty takes exactly the first record off
  it, applies the receive rule, and writes one \<^verbatim>\<open>RECEIVE\<close> line that carries the
  clock after the update and the length of the queue at that moment. Nothing is sent
  and no other line is written: the outcome is the same for every random draw.
\<close>

theorem receive_first:
  assumes "log_open s" and "msg_queue s = v # q"
  shows "\<exists>s'. tick i s = Inr s'
           \<and> msg_queue s' = q @ late i
           \<and> logical_clock s' = max (logical_clock s) v + 1
           \<and> log_file s' = log_file s @
                [\<lparr>event_type = ''RECEIVE'', L = logical_clock s',
                  queue_len = Some (length (msg_queue s')), note_text = None\<rparr>]
           \<and> sent s' = sent s \<and> stderr s' = stderr s \<and> peer_sockets s' = peer_sockets s
           \<and> tick (i\<lparr>draw := r, pick := c\<rparr>) s = Inr s'"
  unfolding tick_receive[OF assms] by simp

theorem receive_first_witness:
  "log_open (enqueue [5] example_machine)
   \<and> msg_queue (enqueue [5] example_machine) = [5]
   \<and> (\<exists>s'. tick (example_input 3) (enqueue [5] example_machine) = Inr s'
          \<and> msg_queue s' = [] @ late (example_input 3)
          \<and> logical_clock s' = max (logical_clock (enqueue [5] example_machine)) 5 + 1
          \<and> sent s' = sent (enqueue [5] example_machine)
          \<and> tick (example_input 3\<lparr>draw := 9, pick := 4\<rparr>) (enqueue [5] example_machine) = Inr s')
   \<and> max (logical_clock (enqueue [5] example_machine)) 5 + 1 = 6"
proof -
  have h1: "log_open (enqueue [5] example_machine)"
    by (simp add: enqueue_def example_machine_def)
  have h2: "msg_queue (enqueue [5] example_machine) = [5]"
    by (simp add: enqueue_def example_machine_def)
  have v: "max (logical_clock (enqueue [5] example_machine)) 5 + 1 = 6"
    by (simp add: enqueue_def example_machine_def)
  show ?thesis
    using h1 h2 v receive_first[OF h1 h2, where i = "example_input 3" and r = 9 and c = 4] by blast
qed

text \<open>
  Claim C7. On a draw of 2 with an empty queue the clock goes up by one; with two or
  more connections the record goes to the second one of \<^verbatim>\<open>peer_sockets.values()\<close>,
  with exactly one connection to that one, with none nowhere; a \<^verbatim>\<open>SEND(2)\<close> line is
  written in each case. (A send that raises leaves a line on stderr instead of a
  record on the socket.)
\<close>

theorem send2_rule:
  assumes "log_open s" and "msg_queue s = []" and "draw i = 2"
  shows "\<exists>s'. tick i s = Inr s'
           \<and> logical_clock s' = logical_clock s + 1
           \<and> log_file s' = log_file s @
                [\<lparr>event_type = ''SEND(2)'', L = logical_clock s + 1,
                  queue_len = None, note_text = None\<rparr>]
           \<and> peer_sockets s' = peer_sockets s
           \<and> (case dict_values (peer_sockets s) of
                 [] \<Rightarrow> sent s' = sent s \<and> stderr s' = stderr s
               | [k] \<Rightarrow>
                   (if fails i k then sent s' = sent s \<and> stderr s' = stderr s @ [ErrorSending]
                    else sent s' = sent s @ [(k, encode (logical_clock s + 1) (machine_id s))]
                         \<and> stderr s' = stderr s)
               | k0 # k1 # _ \<Rightarrow>
                   (if fails i k1 then sent s' = sent s \<and> stderr s' = stderr s @ [ErrorSending]
                    else sent s' = sent s @ [(k1, encode (logical_clock s + 1) (machine_id s))]
                         \<and> stderr s' = stderr s))"
  unfolding tick_local[OF assms(1,2)] using assms(3)
  by (simp add: send_all_fields send_all_sent send_all_stderr send_message_sent
                send_message_fields targets_def kind_def
           split: list.splits)

theorem send2_rule_witness:
  "log_open example_machine \<and> msg_queue example_machine = [] \<and> draw (example_input 2) = 2
   \<and> (\<exists>s'. tick (example_input 2) example_machine = Inr s'
          \<and> logical_clock s' = logical_clock example_machine + 1
          \<and> peer_sockets s' = peer_sockets example_machine
          \<and> sent s' = [(2, ''4:2'')])"
proof -
  have h1: "log_open example_machine" by (simp add: example_machine_def)
  have h2: "msg_queue example_machine = []" by (simp add: example_machine_def)
  have h3: "draw (example_input 2) = 2" by (simp add: example_input_def)
  have e: "encode 4 2 = ''4:2''" by code_simp
  from send2_rule[OF h1 h2 h3] obtain s' where
    a: "tick (example_input 2) example_machine = Inr s'"
       "logical_clock s' = logical_clock example_machine + 1"
       "peer_sockets s' = peer_sockets example_machine"
    and b: "(case dict_values (peer_sockets example_machine) of
                 [] \<Rightarrow> sent s' = sent example_machine \<and> stderr s' = stderr example_machine
               | [k] \<Rightarrow>
                   (if fails (example_input 2) k
                    then sent s' = sent example_machine
                         \<and> stderr s' = stderr example_machine @ [ErrorSending]
                    else sent s' = sent example_machine
                           @ [(k, encode (logical_clock example_machine + 1) (machine_id example_machine))]
                         \<and> stderr s' = stderr example_machine)
               | k0 # k1 # _ \<Rightarrow>
                   (if fails (example_input 2) k1
                    then sent s' = sent example_machine
                         \<and> stderr s' = stderr example_machine @ [ErrorSending]
                    else sent s' = sent example_machine
                           @ [(k1, encode (logical_clock example_machine + 1) (machine_id example_machine))]
                         \<and> stderr s' = stderr example_machine))"
    by blast
  from b have "sent s' = [(2, ''4:2'')]"
    by (simp add: example_machine_def example_input_def dict_values_def e)
  then show ?thesis using h1 h2 h3 a by blast
qed

text \<open>
  Claim C10. On a draw of 3 with an empty queue the clock goes up by one, once and
  before the first send; every connection is then written the same record, which
  carries that one new clock value (a connection on which the send raises gets a
  line on stderr instead); one \<^verbatim>\<open>SEND(3)\<close> line is written.
\<close>

theorem broadcast_rule:
  assumes "log_open s" and "msg_queue s = []" and "draw i = 3"
  shows "\<exists>s'. tick i s = Inr s'
           \<and> logical_clock s' = logical_clock s + 1
           \<and> sent s' = sent s @ map (\<lambda>k. (k, encode (logical_clock s + 1) (machine_id s)))
                                    (filter (\<lambda>k. \<not> fails i k) (dict_values (peer_sockets s)))
           \<and> stderr s' = stderr s @ map (\<lambda>k. ErrorSending) (filter (fails i) (dict_values (peer_sockets s)))
           \<and> log_file s' = log_file s @
                [\<lparr>event_type = ''SEND(3)'', L = logical_clock s + 1,
                  queue_len = None, note_text = None\<rparr>]
           \<and> peer_sockets s' = peer_sockets s"
  unfolding tick_local[OF assms(1,2)] using assms(3)
  by (simp add: send_all_fields send_all_sent send_all_stderr targets_def kind_def)

theorem broadcast_rule_witness:
  "log_open example_machine \<and> msg_queue example_machine = []
   \<and> draw (example_input 3\<lparr>fails := \<lambda>k. False\<rparr>) = 3
   \<and> (\<exists>s'. tick (example_input 3\<lparr>fails := \<lambda>k. False\<rparr>) example_machine = Inr s'
          \<and> logical_clock s' = logical_clock example_machine + 1
          \<and> sent s' = [(1, ''4:2''), (2, ''4:2'')])"
proof -
  let ?i = "example_input 3\<lparr>fails := \<lambda>k. False\<rparr>"
  have h1: "log_open example_machine" by (simp add: example_machine_def)
  have h2: "msg_queue example_machine = []" by (simp add: example_machine_def)
  have h3: "draw ?i = 3" by (simp add: example_input_def)
  have e: "encode 4 2 = ''4:2''" by code_simp
  from broadcast_rule[OF h1 h2 h3] obtain s' where
    a: "tick ?i example_machine = Inr s'"
       "logical_clock s' = logical_clock example_machine + 1"
    and b: "sent s' = sent example_machine
              @ map (\<lambda>k. (k, encode (logical_clock example_machine + 1) (machine_id example_machine)))
                  (filter (\<lambda>k. \<not> fails ?i k) (dict_values (peer_sockets example_machine)))"
    by blast
  from b have "sent s' = [(1, ''4:2''), (2, ''4:2'')]"
    by (simp add: example_machine_def example_input_def dict_values_def e)
  then show ?thesis using h1 h2 h3 a by blast
qed

text \<open>
  Claim C9. A tick in which sends raise is compared with the same tick in which none
  does. Both return normally; the sockets written to are the same list \<open>ks\<close>, and
  each socket of it on which the send raises gets a line on stderr in place of the
  record. Clock, log and connection set are the same in both, the connection set is
  the one before the tick, and the next tick runs whatever its input.
\<close>

theorem send_failure_swallowed:
  assumes "log_open s" and "msg_queue s = []"
  shows "\<exists>s' s0 ks. tick i s = Inr s' \<and> tick (i\<lparr>fails := \<lambda>k. False\<rparr>) s = Inr s0
           \<and> sent s0 = sent s @ map (\<lambda>k. (k, encode (logical_clock s + 1) (machine_id s))) ks
           \<and> stderr s0 = stderr s
           \<and> sent s' = sent s @ map (\<lambda>k. (k, encode (logical_clock s + 1) (machine_id s)))
                                    (filter (\<lambda>k. \<not> fails i k) ks)
           \<and> stderr s' = stderr s @ map (\<lambda>k. ErrorSending) (filter (fails i) ks)
           \<and> logical_clock s' = logical_clock s + 1 \<and> logical_clock s0 = logical_clock s + 1
           \<and> log_file s' = log_file s0
           \<and> length (log_file s') = Suc (length (log_file s))
           \<and> peer_sockets s' = peer_sockets s \<and> log_open s'
           \<and> (\<forall>j. \<exists>s''. tick j s' = Inr s'')"
proof -
  let ?i0 = "i\<lparr>fails := \<lambda>k. False\<rparr>"
  let ?s1 = "s\<lparr>logical_clock := logical_clock s + 1\<rparr>"
  let ?ln = "\<lparr>event_type = kind (draw i), L = logical_clock s + 1,
                queue_len = None, note_text = None\<rparr>"
  let ?A = "send_all (fails i) (targets i s) ?s1\<lparr>log_file := log_file s @ [?ln]\<rparr>"
  let ?B = "send_all (\<lambda>k. False) (targets i s) ?s1\<lparr>log_file := log_file s @ [?ln]\<rparr>"
  have tg: "targets ?i0 s = targets i s"
    by (simp add: targets_def Let_def cong: if_cong)
  have A: "tick i s = Inr ?A" by (rule tick_local[OF assms])
  have B: "tick ?i0 s = Inr ?B" using tick_local[OF assms, of ?i0] by (simp add: tg)
  have "log_open ?A" using assms(1) by (simp add: send_all_fields)
  then have nx: "\<forall>j. \<exists>s''. tick j ?A = Inr s''"
    using tick_total by blast
  show ?thesis
    using nx assms(1)
    by (intro exI[of _ ?A] exI[of _ ?B] exI[of _ "targets i s"])
       (simp add: A B send_all_fields send_all_sent send_all_stderr)
qed

theorem send_failure_swallowed_witness:
  "log_open example_machine \<and> msg_queue example_machine = []
   \<and> (\<exists>s'. tick (example_input 3) example_machine = Inr s'
          \<and> sent s' = [(2, ''4:2'')] \<and> stderr s' = [ErrorSending]
          \<and> logical_clock s' = logical_clock example_machine + 1
          \<and> peer_sockets s' = peer_sockets example_machine
          \<and> (\<forall>j. \<exists>s''. tick j s' = Inr s''))"
proof -
  let ?i = "example_input 3"
  let ?m = "encode (logical_clock example_machine + 1) (machine_id example_machine)"
  have h1: "log_open example_machine" by (simp add: example_machine_def)
  have h2: "msg_queue example_machine = []" by (simp add: example_machine_def)
  have e: "?m = ''4:2''" by (simp add: example_machine_def) code_simp
  from send_failure_swallowed[OF h1 h2, of ?i] obtain s' s0 ks where
    a: "tick ?i example_machine = Inr s'"
       "logical_clock s' = logical_clock example_machine + 1"
       "peer_sockets s' = peer_sockets example_machine"
       "\<forall>j. \<exists>s''. tick j s' = Inr s''"
    and t0: "tick (?i\<lparr>fails := \<lambda>k. False\<rparr>) example_machine = Inr s0"
    and b0: "sent s0 = sent example_machine @ map (\<lambda>k. (k, ?m)) ks"
    and b: "sent s' = sent example_machine @ map (\<lambda>k. (k, ?m)) (filter (\<lambda>k. \<not> fails ?i k) ks)"
           "stderr s' = stderr example_machine @ map (\<lambda>k. ErrorSending) (filter (fails ?i) ks)"
    by blast
  have "tick (?i\<lparr>fails := \<lambda>k. False\<rparr>) example_machine
          = Inr (example_machine\<lparr>logical_clock := 4, sent := [(1, ?m), (2, ?m)],
                 log_file := log_file example_machine @
                   [\<lparr>event_type = ''SEND(3)'', L = 4, queue_len = None, note_text = None\<rparr>]\<rparr>)"
    by (simp add: tick_def example_input_def example_machine_def dict_values_def
                  send_message_def log_event_def)
  with t0 have "sent s0 = [(1, ?m), (2, ?m)]" by auto
  with b0 have "map (\<lambda>k. (k, ?m)) ks = map (\<lambda>k. (k, ?m)) [1, 2]"
    by (simp add: example_machine_def)
  then have "map fst (map (\<lambda>k. (k, ?m)) ks) = map fst (map (\<lambda>k. (k, ?m)) [1, 2])" by simp
  then have "ks = [1, 2]" by (simp add: comp_def)
  with b have "sent s' = [(2, ''4:2'')]" "stderr s' = [ErrorSending]"
    using e by (simp_all add: example_input_def) (simp_all add: example_machine_def)
  then show ?thesis using h1 h2 a by blast
qed

section \<open>The receive worker\<close>

lemma receive_messages_effect:
  "receive_messages k rs s =
     ((if \<exists>r \<in> set rs. stops r then Returned else Waiting),
      s\<lparr>msg_queue := msg_queue s @ accepted rs,
        stderr := stderr s @ complaints rs,
        closed_socks := closed_socks s @ (if \<exists>r \<in> set rs. stops r then [k] else [])\<rparr>)"
proof (induction k rs s rule: receive_messages.induct)
  case (1 k s)
  show ?case by simp
next
  case (2 k rs s)
  show ?case by (simp add: stops_def)
next
  case (3 k data rs s)
  show ?case
  proof (cases "data = []")
    case True
    then show ?thesis by (simp add: stops_def)
  next
    case False
    show ?thesis
    proof (cases "decode_record data")
      case (Inl e)
      then show ?thesis using False by (simp add: stops_def)
    next
      case (Inr v)
      then show ?thesis using False "3.IH"[OF False Inr] by (simp add: stops_def)
    qed
  qed
qed




section \<open>Connecting to the peers\<close>

lemma keys_update: "keys (AList.update p k d) = insert p (keys d)"
  by (induction d) (auto simp: keys_def)

lemma connect_attempts_fail:
  assumes "\<forall>a \<in> set as. \<not> reach p a"
  shows "connect_attempts reach mr p as s =
           s\<lparr>fresh := fresh s + length as,
             stderr := stderr s @ map (\<lambda>a. ConnectAttemptFailed p a mr) as,
             slept := slept s + length (filter (\<lambda>a. a < mr) as)\<rparr>"
  using assms by (induction as arbitrary: s) (simp_all add: Let_def)

lemma connect_attempts_success:
  assumes "\<forall>a \<in> set pre. \<not> reach p a" and "reach p a"
  shows "connect_attempts reach mr p (pre @ a # post) s =
           s\<lparr>fresh := fresh s + length pre + 1,
             stderr := stderr s @ map (\<lambda>a. ConnectAttemptFailed p a mr) pre,
             slept := slept s + length (filter (\<lambda>a. a < mr) pre),
             peer_sockets := AList.update p (fresh s + length pre) (peer_sockets s)\<rparr>"
  using assms by (induction pre arbitrary: s) (simp_all add: Let_def)

lemma upt_split:
  assumes "1 \<le> a" and "a \<le> 5"
  shows "[1 ..< 6] = [1 ..< a] @ a # [Suc a ..< 6]"
proof -
  have "[1 ..< a + (6 - a)] = [1 ..< a] @ [a ..< a + (6 - a)]"
    using assms(1) by (rule upt_add_eq_append)
  moreover have "a + (6 - a) = 6" using assms(2) by simp
  moreover have "[a ..< 6] = a # [Suc a ..< 6]" using assms(2) by (simp add: upt_conv_Cons)
  ultimately show ?thesis by simp
qed

lemma connect_one_success:
  assumes "1 \<le> a" and "a \<le> 5" and "reach p a" and "\<forall>b. 1 \<le> b \<and> b < a \<longrightarrow> \<not> reach p b"
  shows "connect_attempts reach 5 p [1 ..< 6] s =
           s\<lparr>fresh := fresh s + a,
             stderr := stderr s @ map (\<lambda>b. ConnectAttemptFailed p b 5) [1 ..< a],
             slept := slept s + (a - 1),
             peer_sockets := AList.update p (fresh s + a - 1) (peer_sockets s)\<rparr>"
proof -
  have f: "\<forall>b \<in> set [1 ..< a]. \<not> reach p b" using assms(4) by simp
  have l: "filter (\<lambda>b. b < 5) [1 ..< a] = [1 ..< a]" using assms(2) by (simp add: filter_id_conv)
  show ?thesis
    unfolding upt_split[OF assms(1,2)]
      connect_attempts_success[where reach = reach and p = p and pre = "[1 ..< a]" and a = a,
        OF f assms(3)] l
    using assms(1) by simp
qed

lemma connect_one_fail:
  assumes "\<forall>b. 1 \<le> b \<and> b \<le> 5 \<longrightarrow> \<not> reach p b"
  shows "connect_attempts reach 5 p [1 ..< 6] s =
           s\<lparr>fresh := fresh s + 5,
             stderr := stderr s @ map (\<lambda>b. ConnectAttemptFailed p b 5) [1 ..< 6],
             slept := slept s + 4\<rparr>"
proof -
  have f: "\<forall>b \<in> set [1 ..< 6]. \<not> reach p b" using assms by simp
  have l: "length (filter (\<lambda>b. b < 5) [1 ..< 6]) = 4" by code_simp
  show ?thesis
    unfolding connect_attempts_fail[where reach = reach and p = p and as = "[1 ..< 6]", OF f] l
    by simp
qed

lemma connect_attempts_fields:
  "listen_host (connect_attempts reach mr p as s) = listen_host s"
  "listen_port (connect_attempts reach mr p as s) = listen_port s"
  "logical_clock (connect_attempts reach mr p as s) = logical_clock s"
  "log_open (connect_attempts reach mr p as s) = log_open s"
  "log_file (connect_attempts reach mr p as s) = log_file s"
  "msg_queue (connect_attempts reach mr p as s) = msg_queue s"
  "server_socket (connect_attempts reach mr p as s) = server_socket s"
  by (induction as arbitrary: s; simp add: Let_def)+

lemma connect_attempts_keys:
  "keys (peer_sockets (connect_attempts reach mr p as s)) =
     keys (peer_sockets s) \<union> (if \<exists>a \<in> set as. reach p a then {p} else {})"
  by (induction as arbitrary: s) (auto simp: Let_def keys_update)

lemma connect_to_peers_Cons:
  "connect_to_peers reach (p # ps) s =
     (if p = (listen_host s, listen_port s) then connect_to_peers reach ps s
      else connect_to_peers reach ps (connect_attempts reach 5 p [1 ..< 6] s))"
proof -
  have e: "[1 ..< (5::nat) + 1] = [1 ..< 6]" by simp
  obtain phost pport where p: "p = (phost, pport)" by (cases p)
  show ?thesis unfolding p connect_to_peers.simps Let_def e by simp
qed

lemma connect_to_peers_fields:
  "listen_host (connect_to_peers reach ps s) = listen_host s"
  "listen_port (connect_to_peers reach ps s) = listen_port s"
  "logical_clock (connect_to_peers reach ps s) = logical_clock s"
  "log_open (connect_to_peers reach ps s) = log_open s"
  "log_file (connect_to_peers reach ps s) = log_file s"
  "msg_queue (connect_to_peers reach ps s) = msg_queue s"
  "server_socket (connect_to_peers reach ps s) = server_socket s"
  by (induction ps arbitrary: s;
      simp add: connect_to_peers_Cons connect_attempts_fields del: connect_to_peers.simps(2))+

lemma connect_to_peers_keys:
  "keys (peer_sockets (connect_to_peers reach ps s)) =
     keys (peer_sockets s) \<union>
     {p \<in> set ps. p \<noteq> (listen_host s, listen_port s) \<and> (\<exists>a. 1 \<le> a \<and> a \<le> 5 \<and> reach p a)}"
proof (induction ps arbitrary: s)
  case Nil
  show ?case by simp
next
  case (Cons p ps)
  show ?case
  proof (cases "p = (listen_host s, listen_port s)")
    case True
    have "connect_to_peers reach (p # ps) s = connect_to_peers reach ps s"
      unfolding connect_to_peers_Cons using True by simp
    then show ?thesis using Cons.IH[of s] True by auto
  next
    case False
    let ?s1 = "connect_attempts reach 5 p [1 ..< 6] s"
    have c: "connect_to_peers reach (p # ps) s = connect_to_peers reach ps ?s1"
      unfolding connect_to_peers_Cons using False by simp
    have e: "(\<exists>a \<in> set [1 ..< 6]. reach p a) = (\<exists>a. 1 \<le> a \<and> a \<le> 5 \<and> reach p a)"
      by auto
    have k: "keys (peer_sockets ?s1) =
               keys (peer_sockets s) \<union> (if \<exists>a. 1 \<le> a \<and> a \<le> 5 \<and> reach p a then {p} else {})"
      unfolding connect_attempts_keys e ..
    have h: "listen_host ?s1 = listen_host s" "listen_port ?s1 = listen_port s"
      by (rule connect_attempts_fields)+
    show ?thesis
      unfolding c Cons.IH[of ?s1] k h using False by auto
  qed
qed

lemma driver_connect_to_peers_Cons:
  "driver_connect_to_peers reach (p # ps) s =
     (if p = (listen_host s, listen_port s) then driver_connect_to_peers reach ps s
      else if reach p 1
      then driver_connect_to_peers reach ps
             (s\<lparr>fresh := fresh s + 1, peer_sockets := AList.update p (fresh s) (peer_sockets s)\<rparr>)
      else driver_connect_to_peers reach ps
             (s\<lparr>fresh := fresh s + 1, stderr := stderr s @ [ConnectFailed p]\<rparr>))"
  by (cases p) (simp add: Let_def)

lemma driver_connect_to_peers_fields:
  "listen_host (driver_connect_to_peers reach ps s) = listen_host s"
  "listen_port (driver_connect_to_peers reach ps s) = listen_port s"
  "logical_clock (driver_connect_to_peers reach ps s) = logical_clock s"
  "log_open (driver_connect_to_peers reach ps s) = log_open s"
  "log_file (driver_connect_to_peers reach ps s) = log_file s"
  "msg_queue (driver_connect_to_peers reach ps s) = msg_queue s"
  "server_socket (driver_connect_to_peers reach ps s) = server_socket s"
  by (induction ps arbitrary: s;
      simp add: driver_connect_to_peers_Cons del: driver_connect_to_peers.simps(2))+

lemma driver_connect_to_peers_keys:
  "keys (peer_sockets (driver_connect_to_peers reach ps s)) =
     keys (peer_sockets s) \<union>
     {p \<in> set ps. p \<noteq> (listen_host s, listen_port s) \<and> reach p 1}"
proof (induction ps arbitrary: s)
  case Nil
  show ?case by simp
next
  case (Cons p ps)
  let ?a = "s\<lparr>fresh := fresh s + 1, peer_sockets := AList.update p (fresh s) (peer_sockets s)\<rparr>"
  let ?b = "s\<lparr>fresh := fresh s + 1, stderr := stderr s @ [ConnectFailed p]\<rparr>"
  consider "p = (listen_host s, listen_port s)"
    | "p \<noteq> (listen_host s, listen_port s)" "reach p 1"
    | "p \<noteq> (listen_host s, listen_port s)" "\<not> reach p 1" by blast
  then show ?case
  proof cases
    case 1
    then have "driver_connect_to_peers reach (p # ps) s = driver_connect_to_peers reach ps s"
      unfolding driver_connect_to_peers_Cons by simp
    then show ?thesis using Cons.IH[of s] 1 by auto
  next
    case 2
    then have "driver_connect_to_peers reach (p # ps) s = driver_connect_to_peers reach ps ?a"
      unfolding driver_connect_to_peers_Cons by simp
    then show ?thesis using Cons.IH[of ?a] 2 by (auto simp: keys_update)
  next
    case 3
    then have "driver_connect_to_peers reach (p # ps) s = driver_connect_to_peers reach ps ?b"
      unfolding driver_connect_to_peers_Cons by simp
    then show ?thesis using Cons.IH[of ?b] 3 by auto
  qed
qed

text \<open>
  Claim C4, as amended. For a peer \<open>p\<close> that is not the machine itself:
  in \<^verbatim>\<open>prior_distributed_machine.py\<close>, when attempt \<open>a\<close> of the five is the first to
  succeed, \<open>connect_to_peers\<close> has made \<open>a\<close> attempts, printed a line for each of the
  \<open>a - 1\<close> failures, slept one second after each of them, and stored the connection;
  when none of the five succeeds it has printed five lines, slept four seconds and
  stored nothing, and it returns normally. Over a whole peer list the connected peers
  are those already connected and the listed peers, other than the machine itself,
  for which one of the five attempts succeeds. No tick changes the connection set.
  In \<^verbatim>\<open>preliminary_work/driver.py\<close> there is one attempt per peer: the connected
  peers are those for which that first attempt succeeds.
\<close>

theorem connect_rule:
  assumes "p \<noteq> (listen_host s, listen_port s)"
  shows "(\<forall>a. 1 \<le> a \<and> a \<le> 5 \<and> reach p a \<and> (\<forall>b. 1 \<le> b \<and> b < a \<longrightarrow> \<not> reach p b) \<longrightarrow>
            connect_to_peers reach [p] s =
              s\<lparr>fresh := fresh s + a,
                stderr := stderr s @ map (\<lambda>b. ConnectAttemptFailed p b 5) [1 ..< a],
                slept := slept s + (a - 1),
                peer_sockets := AList.update p (fresh s + a - 1) (peer_sockets s)\<rparr>)
       \<and> ((\<forall>b. 1 \<le> b \<and> b \<le> 5 \<longrightarrow> \<not> reach p b) \<longrightarrow>
            connect_to_peers reach [p] s =
              s\<lparr>fresh := fresh s + 5,
                stderr := stderr s @ map (\<lambda>b. ConnectAttemptFailed p b 5) [1 ..< 6],
                slept := slept s + 4\<rparr>)
       \<and> keys (peer_sockets (connect_to_peers reach ps s)) =
            keys (peer_sockets s) \<union>
            {q \<in> set ps. q \<noteq> (listen_host s, listen_port s) \<and> (\<exists>a. 1 \<le> a \<and> a \<le> 5 \<and> reach q a)}
       \<and> (\<forall>i t. log_open t \<longrightarrow> (\<exists>t'. tick i t = Inr t' \<and> peer_sockets t' = peer_sockets t))
       \<and> keys (peer_sockets (driver_connect_to_peers reach ps s)) =
            keys (peer_sockets s) \<union>
            {q \<in> set ps. q \<noteq> (listen_host s, listen_port s) \<and> reach q 1}"
proof -
  have one: "connect_to_peers reach [p] s = connect_attempts reach 5 p [1 ..< 6] s"
    unfolding connect_to_peers_Cons using assms by simp
  have a: "\<forall>a. 1 \<le> a \<and> a \<le> 5 \<and> reach p a \<and> (\<forall>b. 1 \<le> b \<and> b < a \<longrightarrow> \<not> reach p b) \<longrightarrow>
            connect_to_peers reach [p] s =
              s\<lparr>fresh := fresh s + a,
                stderr := stderr s @ map (\<lambda>b. ConnectAttemptFailed p b 5) [1 ..< a],
                slept := slept s + (a - 1),
                peer_sockets := AList.update p (fresh s + a - 1) (peer_sockets s)\<rparr>"
    unfolding one using connect_one_success[of _ reach p s] by blast
  have b: "(\<forall>b. 1 \<le> b \<and> b \<le> 5 \<longrightarrow> \<not> reach p b) \<longrightarrow>
            connect_to_peers reach [p] s =
              s\<lparr>fresh := fresh s + 5,
                stderr := stderr s @ map (\<lambda>b. ConnectAttemptFailed p b 5) [1 ..< 6],
                slept := slept s + 4\<rparr>"
    unfolding one using connect_one_fail[of reach p s] by blast
  have c: "\<forall>i t. log_open t \<longrightarrow> (\<exists>t'. tick i t = Inr t' \<and> peer_sockets t' = peer_sockets t)"
    using tick_total by blast
  show ?thesis
    using a b c connect_to_peers_keys[of reach ps s] driver_connect_to_peers_keys[of reach ps s]
    by blast
qed

theorem connect_rule_witness:
  "example_peer \<noteq> (listen_host example_start, listen_port example_start)
   \<and> connect_to_peers (\<lambda>q a. 3 \<le> a) [example_peer] example_start =
       example_start\<lparr>fresh := fresh example_start + 3,
         stderr := stderr example_start @ map (\<lambda>b. ConnectAttemptFailed example_peer b 5) [1 ..< 3],
         slept := slept example_start + (3 - 1),
         peer_sockets := AList.update example_peer (fresh example_start + 3 - 1) (peer_sockets example_start)\<rparr>
   \<and> connect_to_peers (\<lambda>q a. False) [example_peer] example_start =
       example_start\<lparr>fresh := fresh example_start + 5,
         stderr := stderr example_start @ map (\<lambda>b. ConnectAttemptFailed example_peer b 5) [1 ..< 6],
         slept := slept example_start + 4\<rparr>"
proof -
  have h: "example_peer \<noteq> (listen_host example_start, listen_port example_start)"
    by (simp add: example_peer_def example_start_def new_machine_def)
  have g: "(1::nat) \<le> 3 \<and> (3::nat) \<le> 5 \<and> (3::nat) \<le> 3 \<and> (\<forall>b. 1 \<le> b \<and> b < 3 \<longrightarrow> \<not> (3::nat) \<le> b)"
    by simp
  have n: "\<forall>b::nat. 1 \<le> b \<and> b \<le> 5 \<longrightarrow> \<not> False" by simp
  from connect_rule[OF h, where reach = "\<lambda>q a. 3 \<le> a", THEN conjunct1, THEN spec, THEN mp, OF g]
  have 1: "connect_to_peers (\<lambda>q a. 3 \<le> a) [example_peer] example_start =
       example_start\<lparr>fresh := fresh example_start + 3,
         stderr := stderr example_start @ map (\<lambda>b. ConnectAttemptFailed example_peer b 5) [1 ..< 3],
         slept := slept example_start + (3 - 1),
         peer_sockets := AList.update example_peer (fresh example_start + 3 - 1) (peer_sockets example_start)\<rparr>" .
  from connect_rule[OF h, where reach = "\<lambda>q a. False", THEN conjunct2, THEN conjunct1, THEN mp, OF n]
  have 2: "connect_to_peers (\<lambda>q a. False) [example_peer] example_start =
       example_start\<lparr>fresh := fresh example_start + 5,
         stderr := stderr example_start @ map (\<lambda>b. ConnectAttemptFailed example_peer b 5) [1 ..< 6],
         slept := slept example_start + 4\<rparr>" .
  show ?thesis using h 1 2 by blast
qed

text \<open>
  Claim C4 as it was written gives five attempts to every \<open>connect\<close>. In
  \<^verbatim>\<open>preliminary_work/driver.py\<close> a peer that starts listening after two failed
  attempts is never connected: the one attempt fails, one line is printed, nothing is
  slept, and the connection set stays empty. The other file connects it at the third
  attempt.
\<close>

theorem driver_single_attempt_counterexample:
  "peer_sockets (driver_connect_to_peers (\<lambda>q a. 3 \<le> a) [example_peer] example_start) = []
   \<and> stderr (driver_connect_to_peers (\<lambda>q a. 3 \<le> a) [example_peer] example_start)
       = [ConnectFailed example_peer]
   \<and> slept (driver_connect_to_peers (\<lambda>q a. 3 \<le> a) [example_peer] example_start) = 0
   \<and> peer_sockets (connect_to_peers (\<lambda>q a. 3 \<le> a) [example_peer] example_start)
       = [(example_peer, 3)]"
  by code_simp

section \<open>Shutdown\<close>

lemma shutdown_open:
  assumes "log_open s"
  shows "shutdown s = Inr (s\<lparr>log_file := log_file s @
              [\<lparr>event_type = ''SHUTDOWN'', L = logical_clock s, queue_len = None, note_text = None\<rparr>],
            log_open := False,
            closed_socks := closed_socks s @ server_socket s # dict_values (peer_sockets s)\<rparr>)"
  using assms by (simp add: shutdown_def log_event_def)

lemma run_steps:
  assumes "\<forall>it \<in> set pre. check_time it - start < rt"
  shows "run rt start (pre @ rest) s =
           (case steps pre s of Inl e \<Rightarrow> Some (Inl e) | Inr s1 \<Rightarrow> run rt start rest s1)"
  using assms by (induction pre arbitrary: s) (simp_all split: sum.splits)

text \<open>
  Claim C8. Let the loop condition hold at the passes \<open>pre\<close> and fail at the next
  reading of the clock. Then \<open>run\<close> executes the ticks of \<open>pre\<close> and no other (the
  passes \<open>post\<close> are never looked at), calls \<open>shutdown\<close> and returns: the log has one
  line per tick and then the \<^verbatim>\<open>SHUTDOWN\<close> line, which is its last line and its only
  \<^verbatim>\<open>SHUTDOWN\<close> line; the log is closed; the server socket and every socket of
  \<^verbatim>\<open>peer_sockets\<close> have been closed.
\<close>

theorem shutdown_rule:
  assumes "log_open s"
    and "\<forall>l \<in> set (log_file s). event_type l \<noteq> ''SHUTDOWN''"
    and "\<forall>it \<in> set pre. check_time it - start < rt"
    and "\<not> check_time it - start < rt"
  shows "\<exists>s1 s'. steps pre s = Inr s1 \<and> run rt start (pre @ it # post) s = Some (Inr s')
           \<and> log_file s' = log_file s1 @
                [\<lparr>event_type = ''SHUTDOWN'', L = logical_clock s1, queue_len = None, note_text = None\<rparr>]
           \<and> length (log_file s1) = length (log_file s) + length pre
           \<and> length (filter (\<lambda>l. event_type l = ''SHUTDOWN'') (log_file s')) = 1
           \<and> \<not> log_open s'
           \<and> closed_socks s' = closed_socks s @ server_socket s # dict_values (peer_sockets s)
           \<and> logical_clock s' = logical_clock s1 \<and> msg_queue s' = msg_queue s1
           \<and> sent s' = sent s1 \<and> peer_sockets s' = peer_sockets s"
proof -
  from steps_total[OF assms(1), of pre] obtain s1 where
    st: "steps pre s = Inr s1" and o: "log_open s1"
    and f: "peer_sockets s1 = peer_sockets s" "closed_socks s1 = closed_socks s"
           "server_socket s1 = server_socket s"
    and l: "length (log_file s1) = length (log_file s) + length pre"
           "take (length (log_file s)) (log_file s1) = log_file s"
           "\<forall>l \<in> set (drop (length (log_file s)) (log_file s1)). event_type l \<noteq> ''SHUTDOWN''"
    by blast
  have "log_file s1 = log_file s @ drop (length (log_file s)) (log_file s1)"
    using l(2) by (metis append_take_drop_id)
  then have "set (log_file s1) = set (log_file s) \<union> set (drop (length (log_file s)) (log_file s1))"
    by (metis set_append)
  then have ns: "\<forall>l \<in> set (log_file s1). event_type l \<noteq> ''SHUTDOWN''"
    using assms(2) l(3) by blast
  then have fl: "filter (\<lambda>l. event_type l = ''SHUTDOWN'') (log_file s1) = []"
    by (simp add: filter_empty_conv)
  have r: "run rt start (pre @ it # post) s = Some (shutdown s1)"
    unfolding run_steps[OF assms(3)] st using assms(4) by simp
  show ?thesis
    unfolding r shutdown_open[OF o] using st l(1) f fl by simp
qed

theorem shutdown_rule_witness:
  "log_open example_machine
   \<and> event_type (hd (log_file example_machine)) \<noteq> ''SHUTDOWN''
   \<and> check_time (example_iteration 59 2) - 0 < 60
   \<and> \<not> check_time (example_iteration 61 2) - 0 < 60
   \<and> (\<exists>s1 s'. steps [example_iteration 59 2] example_machine = Inr s1
        \<and> run 60 0 ([example_iteration 59 2] @ example_iteration 61 2 # [example_iteration 62 7])
              example_machine = Some (Inr s')
        \<and> length (filter (\<lambda>l. event_type l = ''SHUTDOWN'') (log_file s')) = 1
        \<and> \<not> log_open s'
        \<and> closed_socks s' = closed_socks example_machine
             @ server_socket example_machine # dict_values (peer_sockets example_machine))
   \<and> closed_socks example_machine
        @ server_socket example_machine # dict_values (peer_sockets example_machine) = [0, 1, 2]"
proof -
  have h1: "log_open example_machine" by (simp add: example_machine_def)
  have h2: "\<forall>l \<in> set (log_file example_machine). event_type l \<noteq> ''SHUTDOWN''"
    by (simp add: example_machine_def)
  have h2': "event_type (hd (log_file example_machine)) \<noteq> ''SHUTDOWN''"
    by (simp add: example_machine_def)
  have h3: "\<forall>it \<in> set [example_iteration 59 2]. check_time it - 0 < 60"
    by (simp add: example_iteration_def)
  have h3': "check_time (example_iteration 59 2) - 0 < 60" by (simp add: example_iteration_def)
  have h4: "\<not> check_time (example_iteration 61 2) - 0 < 60" by (simp add: example_iteration_def)
  have c: "closed_socks example_machine
        @ server_socket example_machine # dict_values (peer_sockets example_machine) = [0, 1, 2]"
    by (simp add: example_machine_def dict_values_def)
  from shutdown_rule[OF h1 h2 h3 h4, of "[example_iteration 62 7]"]
  show ?thesis using h1 h2' h3' h4 c by blast
qed

section \<open>The clock over a run\<close>

lemma init_Inr:
  assumes "init mid host port peers_str tps reach = Inr s0
           \<or> driver_init mid host port peers_str tps reach = Inr s0"
  shows "logical_clock s0 = 0" and "log_open s0" and "msg_queue s0 = []"
  using assms
  by (auto simp: init_def driver_init_def log_event_def connect_to_peers_fields
                 driver_connect_to_peers_fields new_machine_def
           split: sum.splits if_splits)

lemma shutdown_clock: "shutdown t = Inr t' \<Longrightarrow> logical_clock t' = logical_clock t"
  by (auto simp: shutdown_def log_event_def split: if_splits)

text \<open>
  Claim C2. The clock is one integer, 0 when \<^verbatim>\<open>__init__\<close> returns (in either file).
  After any number of ticks it is at least the number of ticks, so never negative.
  Every further tick returns with a strictly larger clock, and with exactly one more
  when the queue is empty (the draws 1, 2, 3 and the internal event alike). The
  receive worker, \<open>send_message\<close>, the queue, \<open>connect_to_peers\<close> and \<open>shutdown\<close>
  leave it as it is.
\<close>

theorem clock_monotone:
  assumes "init mid host port peers_str tps reach = Inr s0
           \<or> driver_init mid host port peers_str tps reach = Inr s0"
  shows "logical_clock s0 = 0
       \<and> (\<forall>its. \<exists>s. steps its s0 = Inr s \<and> 0 \<le> logical_clock s
             \<and> int (length its) \<le> logical_clock s
             \<and> (\<forall>it. \<exists>s'. steps (its @ [it]) s0 = Inr s'
                    \<and> logical_clock s < logical_clock s'
                    \<and> (msg_queue s = [] \<and> arrivals it = []
                          \<longrightarrow> logical_clock s' = logical_clock s + 1)))
       \<and> (\<forall>k rs t. logical_clock (snd (receive_messages k rs t)) = logical_clock t)
       \<and> (\<forall>f k t. logical_clock (send_message f k t) = logical_clock t)
       \<and> (\<forall>vs t. logical_clock (enqueue vs t) = logical_clock t)
       \<and> (\<forall>r ps t. logical_clock (connect_to_peers r ps t) = logical_clock t
             \<and> logical_clock (driver_connect_to_peers r ps t) = logical_clock t)
       \<and> (\<forall>t t'. shutdown t = Inr t' \<longrightarrow> logical_clock t' = logical_clock t)"
proof -
  note i = init_Inr[OF assms]
  have run: "\<exists>s. steps its s0 = Inr s \<and> 0 \<le> logical_clock s
             \<and> int (length its) \<le> logical_clock s
             \<and> (\<forall>it. \<exists>s'. steps (its @ [it]) s0 = Inr s'
                    \<and> logical_clock s < logical_clock s'
                    \<and> (msg_queue s = [] \<and> arrivals it = []
                          \<longrightarrow> logical_clock s' = logical_clock s + 1))" for its
  proof -
    from steps_total[OF i(2), of its] obtain s where
      s: "steps its s0 = Inr s" "log_open s" "logical_clock s0 + int (length its) \<le> logical_clock s"
      by blast
    have nx: "\<exists>s'. steps (its @ [it]) s0 = Inr s' \<and> logical_clock s < logical_clock s'
                \<and> (msg_queue s = [] \<and> arrivals it = [] \<longrightarrow> logical_clock s' = logical_clock s + 1)"
      for it
    proof -
      have o: "log_open (enqueue (arrivals it) s)" using s(2) by (simp add: enqueue_fields)
      from tick_total[OF o, of "input it"] obtain s' where
        t: "tick (input it) (enqueue (arrivals it) s) = Inr s'"
           "logical_clock (enqueue (arrivals it) s) < logical_clock s'"
           "msg_queue (enqueue (arrivals it) s) = []
              \<longrightarrow> logical_clock s' = logical_clock (enqueue (arrivals it) s) + 1"
        by blast
      have "steps (its @ [it]) s0 = Inr s'"
        unfolding steps_append s(1) using t(1) by simp
      then show ?thesis using t(2,3) by (auto simp: enqueue_fields)
    qed
    show ?thesis using s i(1) nx by auto
  qed
  have w: "\<forall>k rs t. logical_clock (snd (receive_messages k rs t)) = logical_clock t"
    by (simp add: receive_messages_effect)
  show ?thesis
    using i(1) run w shutdown_clock
    by (simp add: send_message_fields enqueue_fields connect_to_peers_fields
                  driver_connect_to_peers_fields)
qed

theorem clock_monotone_witness:
  "init 1 ''127.0.0.1'' 5001 ''127.0.0.1:5002'' 3 (\<lambda>q a. True) = Inr example_init
   \<and> logical_clock example_init = 0
   \<and> (\<exists>s. steps [example_iteration 1 2] example_init = Inr s \<and> 0 \<le> logical_clock s
        \<and> int (length [example_iteration 1 2]) \<le> logical_clock s
        \<and> (\<exists>s'. steps ([example_iteration 1 2] @ [example_iteration 2 7]) example_init = Inr s'
               \<and> logical_clock s < logical_clock s'))"
proof -
  have h: "init 1 ''127.0.0.1'' 5001 ''127.0.0.1:5002'' 3 (\<lambda>q a. True) = Inr example_init"
    by code_simp
  then have h': "init 1 ''127.0.0.1'' 5001 ''127.0.0.1:5002'' 3 (\<lambda>q a. True) = Inr example_init
      \<or> driver_init 1 ''127.0.0.1'' 5001 ''127.0.0.1:5002'' 3 (\<lambda>q a. True) = Inr example_init"
    by (rule disjI1)
  note c = clock_monotone[OF h']
  from c have 0: "logical_clock example_init = 0" by (rule conjunct1)
  from c[THEN conjunct2, THEN conjunct1, THEN spec, of "[example_iteration 1 2]"]
  obtain s where s: "steps [example_iteration 1 2] example_init = Inr s" "0 \<le> logical_clock s"
      "int (length [example_iteration 1 2]) \<le> logical_clock s"
    and nx: "\<forall>it. \<exists>s'. steps ([example_iteration 1 2] @ [it]) example_init = Inr s'
                    \<and> logical_clock s < logical_clock s'
                    \<and> (msg_queue s = [] \<and> arrivals it = []
                          \<longrightarrow> logical_clock s' = logical_clock s + 1)"
    by blast
  from nx[THEN spec, of "example_iteration 2 7"] obtain s' where
    "steps ([example_iteration 1 2] @ [example_iteration 2 7]) example_init = Inr s'"
    "logical_clock s < logical_clock s'" by blast
  then show ?thesis using h 0 s by blast
qed

end
